theory Spec2Isabelle
  imports Main "HOL-Library.Word"
begin

section \<open>Memory pools of csnip (src/csnip/mempool.h)\<close>

text \<open>
  The macros \<open>CSNIP_MEMPOOL_DEF_TYPE\<close> and \<open>CSNIP_MEMPOOL_DEF_FUNCS\<close> generate, for an
  item type, a pool structure and the functions \<open>get_slab\<close>, \<open>init_empty\<close>,
  \<open>init_with_cap\<close>, \<open>deinit\<close>, \<open>alloc_item\<close> and \<open>free_item\<close>. They are embedded here
  for an arbitrary item type that satisfies the two static assertions of the macro: the
  only thing the pool does with an item is to overlay a pointer on its storage.

  \<^item> \<open>size_t\<close> is a 64-bit word; \<open>+\<close> and \<open>-\<close> wrap around as in C.
  \<^item> A pointer \<open>itemtype*\<close> is \<open>Null\<close> or \<open>Item b i\<close>, the address of cell \<open>i\<close> of the
    block \<open>b\<close> handed out by the allocator. The array \<open>itemtype** slabs\<close> lives in
    blocks of the same memory, its cells hold item pointers.
  \<^item> A C function that mutates \<open>*pool\<close>, \<open>*err\<close> and the heap takes the pool, the
    error cell and the memory and returns the new ones.
  \<^item> A failed \<open>assert\<close> and an access through an invalid pointer end the run: they are
    the \<open>Inl\<close> results. The file does not define \<open>NDEBUG\<close>, so \<open>assert\<close> is modelled as
    checked.
\<close>

subsection \<open>Memory and the allocation collaborator\<close>

type_synonym size_t = "64 word"

datatype ptr = Null | Item nat nat

datatype fault = AssertionFailed | InvalidAccess

datatype errcode = NoError | AllocationFailure

text \<open>
  The memory: block \<open>b\<close> is \<open>blocks m ! b\<close>, \<open>None\<close> once it has been released, else its
  cells. A cell is \<open>None\<close> as long as no pointer has been stored in it. \<open>plan\<close> holds
  the answers of the allocator to the coming requests (\<open>False\<close>: the request fails; an
  empty plan: every request succeeds), so that \<open>grants m\<close> says whether the next
  request is granted; \<open>requests\<close> logs the item counts that were asked for.
\<close>

record mem =
  blocks :: "ptr option list option list"
  plan :: "bool list"
  requests :: "size_t list"

definition block_of :: "mem \<Rightarrow> nat \<Rightarrow> ptr option list option" where
  "block_of m b = (if b < length (blocks m) then blocks m ! b else None)"

text \<open>
  Modelled from the spec: \<open>csnip_mem_Alloc(nMember, ptr, err)\<close> of csnip/mem.h, which is
  not among the sources. The spec's collaborator: "allocate\_contiguous(count) ->
  block or AllocationFailure: allocate storage for count contiguous Items,
  uninitialized; failure must be reported". On success \<open>ptr\<close> is the first cell of a
  fresh block of \<open>nMember\<close> uninitialised cells and \<open>err\<close> is left alone; on failure
  \<open>ptr\<close> is \<open>NULL\<close> and \<open>err\<close> is set.
\<close>

definition grants :: "mem \<Rightarrow> bool" where
  "grants m = (case plan m of False # pl \<Rightarrow> False | _ \<Rightarrow> True)"

definition csnip_mem_Alloc :: "size_t \<Rightarrow> errcode \<Rightarrow> mem \<Rightarrow> ptr \<times> errcode \<times> mem" where
  "csnip_mem_Alloc nMember err m =
     (let m1 = m\<lparr>plan := tl (plan m), requests := requests m @ [nMember]\<rparr> in
      if grants m
      then (Item (length (blocks m)) 0, err,
            m1\<lparr>blocks := blocks m @ [Some (replicate (unat nMember) None)]\<rparr>)
      else (Null, AllocationFailure, m1))"

text \<open>
  Modelled from the spec: \<open>csnip_mem_Free(ptr)\<close> of csnip/mem.h, which is not among the
  sources. The spec's collaborator: "release\_block(block): free a block previously
  returned by allocate\_contiguous; no return value". As C's \<open>free\<close>, it does nothing
  on \<open>NULL\<close>; releasing anything but the start of a block that is still allocated is
  an invalid access.
\<close>

definition csnip_mem_Free :: "ptr \<Rightarrow> mem \<Rightarrow> fault + mem" where
  "csnip_mem_Free p m =
     (case p of
        Null \<Rightarrow> Inr m
      | Item b i \<Rightarrow>
          (case block_of m b of
             None \<Rightarrow> Inl InvalidAccess
           | Some cs \<Rightarrow>
               if i = 0 then Inr (m\<lparr>blocks := (blocks m)[b := None]\<rparr>)
               else Inl InvalidAccess))"

text \<open>\<open>*((itemtype**)p)\<close> read and written: the pointer overlaid on the cell \<open>p\<close>.\<close>

definition load :: "ptr \<Rightarrow> mem \<Rightarrow> fault + ptr" where
  "load p m =
     (case p of
        Null \<Rightarrow> Inl InvalidAccess
      | Item b i \<Rightarrow>
          (case block_of m b of
             None \<Rightarrow> Inl InvalidAccess
           | Some cs \<Rightarrow>
               if i < length cs
               then (case cs ! i of None \<Rightarrow> Inl InvalidAccess | Some v \<Rightarrow> Inr v)
               else Inl InvalidAccess))"

definition store :: "ptr \<Rightarrow> ptr \<Rightarrow> mem \<Rightarrow> fault + mem" where
  "store p v m =
     (case p of
        Null \<Rightarrow> Inl InvalidAccess
      | Item b i \<Rightarrow>
          (case block_of m b of
             None \<Rightarrow> Inl InvalidAccess
           | Some cs \<Rightarrow>
               if i < length cs
               then Inr (m\<lparr>blocks := (blocks m)[b := Some (cs[i := Some v])]\<rparr>)
               else Inl InvalidAccess))"

text \<open>\<open>&p[k]\<close>.\<close>

definition index :: "ptr \<Rightarrow> nat \<Rightarrow> ptr" where
  "index p k = (case p of Null \<Rightarrow> Null | Item b i \<Rightarrow> Item b (i + k))"

subsection \<open>The pool\<close>

record pool =
  slabs :: ptr
  n_slabs :: size_t
  cap_slabs :: size_t
  n_items :: size_t
  first_free :: ptr

text \<open>The compound literal \<open>(pooltype) { NULL }\<close>: every member zero.\<close>

definition pool_null :: pool where
  "pool_null = \<lparr>slabs = Null, n_slabs = 0, cap_slabs = 0, n_items = 0, first_free = Null\<rparr>"

text \<open>
  The loop of \<open>get_slab\<close>:
  \<^verbatim>\<open>for (size_t i = 0; i < n_items - 1; ++i) *((itemtype**)&sl[i]) = &sl[i + 1];\<close>
\<close>

function get_slab_loop :: "size_t \<Rightarrow> ptr \<Rightarrow> size_t \<Rightarrow> mem \<Rightarrow> fault + mem" where
  "get_slab_loop n sl i m =
     (if i < n - 1
      then (case store (index sl (unat i)) (index sl (unat (i + 1))) m of
              Inl f \<Rightarrow> Inl f
            | Inr m' \<Rightarrow> get_slab_loop n sl (i + 1) m')
      else Inr m)"
  by pat_completeness auto
termination
proof (relation "measure (\<lambda>(n, sl, i, m). unat (n - 1) - unat i)", goal_cases)
  case 1
  show ?case by simp
next
  case (2 n sl i m m')
  then have below: "unat i < unat (n - 1)" by (simp add: word_less_nat_alt)
  have "unat (n - 1) < 2 ^ 64" using unsigned_less [of "n - 1"] by simp
  with below have next_i: "unat (i + 1) = Suc (unat i)" by (simp add: unat_word_ariths)
  have "unat (n - 1) - unat (i + 1) < unat (n - 1) - unat i"
    unfolding next_i using below by linarith
  then show ?case by simp
qed

declare get_slab_loop.simps [simp del]

definition get_slab :: "size_t \<Rightarrow> errcode \<Rightarrow> mem \<Rightarrow> fault + (ptr \<times> errcode \<times> mem)" where
  "get_slab n err m =
     (case csnip_mem_Alloc n err m of
        (sl, err1, m1) \<Rightarrow>
          if sl = Null then Inr (Null, err1, m1)
          else (case get_slab_loop n sl 0 m1 of
                  Inl f \<Rightarrow> Inl f
                | Inr m2 \<Rightarrow>
                    (case store (index sl (unat (n - 1))) Null m2 of
                       Inl f \<Rightarrow> Inl f
                     | Inr m3 \<Rightarrow> Inr (sl, err1, m3))))"

definition init_empty :: "mem \<Rightarrow> pool \<times> mem" where
  "init_empty m = (pool_null, m)"

definition init_with_cap :: "size_t \<Rightarrow> errcode \<Rightarrow> mem \<Rightarrow> fault + (pool \<times> errcode \<times> mem)" where
  "init_with_cap cap err m =
     (case get_slab cap err m of
        Inl f \<Rightarrow> Inl f
      | Inr (sl, err1, m1) \<Rightarrow>
          (case csnip_mem_Alloc 1 err1 m1 of
             (slabs0, err2, m2) \<Rightarrow>
               (case store (index slabs0 0) sl m2 of
                  Inl f \<Rightarrow> Inl f
                | Inr m3 \<Rightarrow>
                    Inr (\<lparr>slabs = slabs0, n_slabs = 1, cap_slabs = 1, n_items = 0,
                          first_free = sl\<rparr>, err2, m3))))"

text \<open>
  The loop of \<open>deinit\<close>:
  \<^verbatim>\<open>for (size_t i = 0; i < pool->n_slabs; ++i) csnip_mem_Free(pool->slabs[i]);\<close>
\<close>

function deinit_loop :: "pool \<Rightarrow> size_t \<Rightarrow> mem \<Rightarrow> fault + mem" where
  "deinit_loop p i m =
     (if i < n_slabs p
      then (case load (index (slabs p) (unat i)) m of
              Inl f \<Rightarrow> Inl f
            | Inr s \<Rightarrow>
                (case csnip_mem_Free s m of
                   Inl f \<Rightarrow> Inl f
                 | Inr m' \<Rightarrow> deinit_loop p (i + 1) m'))
      else Inr m)"
  by pat_completeness auto
termination
proof (relation "measure (\<lambda>(p, i, m). unat (n_slabs p) - unat i)", goal_cases)
  case 1
  show ?case by simp
next
  case (2 p i m s m')
  then have below: "unat i < unat (n_slabs p)" by (simp add: word_less_nat_alt)
  have "unat (n_slabs p) < 2 ^ 64" using unsigned_less [of "n_slabs p"] by simp
  with below have next_i: "unat (i + 1) = Suc (unat i)" by (simp add: unat_word_ariths)
  have "unat (n_slabs p) - unat (i + 1) < unat (n_slabs p) - unat i"
    unfolding next_i using below by linarith
  then show ?case by simp
qed

declare deinit_loop.simps [simp del]

definition deinit :: "pool \<Rightarrow> mem \<Rightarrow> fault + (pool \<times> mem)" where
  "deinit p m =
     (case deinit_loop p 0 m of
        Inl f \<Rightarrow> Inl f
      | Inr m1 \<Rightarrow>
          (case csnip_mem_Free (slabs p) m1 of
             Inl f \<Rightarrow> Inl f
           | Inr m2 \<Rightarrow> Inr (pool_null, m2)))"

text \<open>
  \<open>alloc_item\<close> in its two parts: the block under "More memory needed ?", then
  "Alloc and return".
\<close>

definition alloc_item_refill :: "pool \<Rightarrow> errcode \<Rightarrow> mem \<Rightarrow> fault + (pool \<times> errcode \<times> mem)" where
  "alloc_item_refill p err m =
     (if first_free p = Null
      then (let sz = n_items p;
                sz = (if sz < 8 then 8 else sz)
            in case get_slab sz err m of
                 Inl f \<Rightarrow> Inl f
               | Inr (sl, err1, m1) \<Rightarrow> Inr (p\<lparr>first_free := sl\<rparr>, err1, m1))
      else Inr (p, err, m))"

definition alloc_item_pop :: "pool \<Rightarrow> mem \<Rightarrow> fault + (ptr \<times> pool)" where
  "alloc_item_pop p m =
     (let it = first_free p in
      if it = Null then Inl AssertionFailed
      else (case load it m of
              Inl f \<Rightarrow> Inl f
            | Inr nx \<Rightarrow> Inr (it, p\<lparr>n_items := n_items p + 1, first_free := nx\<rparr>)))"

definition alloc_item :: "pool \<Rightarrow> errcode \<Rightarrow> mem \<Rightarrow> fault + (ptr \<times> pool \<times> errcode \<times> mem)" where
  "alloc_item p err m =
     (case alloc_item_refill p err m of
        Inl f \<Rightarrow> Inl f
      | Inr (p1, err1, m1) \<Rightarrow>
          (case alloc_item_pop p1 m1 of
             Inl f \<Rightarrow> Inl f
           | Inr (it, p2) \<Rightarrow> Inr (it, p2, err1, m1)))"

definition free_item :: "pool \<Rightarrow> ptr \<Rightarrow> mem \<Rightarrow> fault + (pool \<times> mem)" where
  "free_item p e m =
     (case store e (first_free p) m of
        Inl f \<Rightarrow> Inl f
      | Inr m1 \<Rightarrow> Inr (p\<lparr>first_free := e\<rparr>, m1))"

subsection \<open>A client of the pool\<close>

text \<open>
  A client acquires and releases items. \<open>run\<close> performs its operations in order and
  keeps the list of the items the client holds, the latest first. Releasing an item
  that the client does not hold breaks the precondition of \<open>free_item\<close>: the run
  stops with \<open>Misuse\<close>. A fault of the pool stops it with \<open>Crash\<close>.
\<close>

datatype op = Acquire | Release ptr

datatype stop = Crash fault | Misuse

fun run :: "op list \<Rightarrow> pool \<Rightarrow> errcode \<Rightarrow> mem \<Rightarrow> ptr list
    \<Rightarrow> stop + (pool \<times> errcode \<times> mem \<times> ptr list)" where
  "run [] p e m live = Inr (p, e, m, live)"
| "run (Acquire # ops) p e m live =
     (case alloc_item p e m of
        Inl f \<Rightarrow> Inl (Crash f)
      | Inr (it, p1, e1, m1) \<Rightarrow> run ops p1 e1 m1 (it # live))"
| "run (Release x # ops) p e m live =
     (if x \<in> set live
      then (case free_item p x m of
              Inl f \<Rightarrow> Inl (Crash f)
            | Inr (p1, m1) \<Rightarrow> run ops p1 e m1 (remove1 x live))
      else Inl Misuse)"

subsection \<open>The free list as a list\<close>

text \<open>The cell \<open>x\<close> belongs to a block that is allocated.\<close>

definition valid_item :: "mem \<Rightarrow> ptr \<Rightarrow> bool" where
  "valid_item m x =
     (case x of
        Null \<Rightarrow> False
      | Item b i \<Rightarrow> (case block_of m b of None \<Rightarrow> False | Some cs \<Rightarrow> i < length cs))"

text \<open>
  \<open>fl_path m p xs\<close>: following the overlaid pointers from \<open>p\<close> visits the cells \<open>xs\<close>
  and then reaches \<open>NULL\<close>.
\<close>

primrec fl_path :: "mem \<Rightarrow> ptr \<Rightarrow> ptr list \<Rightarrow> bool" where
  "fl_path m p [] = (p = Null)"
| "fl_path m p (x # xs) =
     (p = x \<and> (case load x m of Inl f \<Rightarrow> False | Inr nx \<Rightarrow> fl_path m nx xs))"

text \<open>
  The state of a pool whose client holds the items \<open>live\<close>: the free list is a list,
  no cell is twice in it, no cell of it is held by the client, and the client holds no
  cell twice.
\<close>

definition pool_inv :: "pool \<Rightarrow> mem \<Rightarrow> ptr list \<Rightarrow> bool" where
  "pool_inv p m live =
     (\<exists>fl. fl_path m (first_free p) fl \<and> distinct (fl @ live) \<and>
           (\<forall>x \<in> set live. valid_item m x))"

text \<open>The same with the cells of the free list named: they are \<open>fl\<close>, in this order.\<close>

definition pool_fl :: "pool \<Rightarrow> mem \<Rightarrow> ptr list \<Rightarrow> ptr list \<Rightarrow> bool" where
  "pool_fl p m fl live =
     (fl_path m (first_free p) fl \<and> distinct (fl @ live) \<and> (\<forall>x \<in> set live. valid_item m x))"

text \<open>
  The cells of a slab of \<open>k\<close> items in block \<open>b\<close> once \<open>get_slab\<close> has linked them: cell
  \<open>j\<close> points to cell \<open>j + 1\<close>, the last one holds \<open>NULL\<close>.
\<close>

definition linked :: "nat \<Rightarrow> nat \<Rightarrow> ptr option list" where
  "linked b k = map (\<lambda>j. Some (if Suc j < k then Item b (Suc j) else Null)) [0..<k]"

text \<open>The memory of a program that has allocated nothing, whose allocator grants every request.\<close>

definition mem0 :: mem where
  "mem0 = \<lparr>blocks = [], plan = [], requests = []\<rparr>"

subsection \<open>Memory accesses\<close>

lemma size_t_succ:
  fixes i n :: size_t
  assumes "i < n"
  shows "unat (i + 1) = Suc (unat i)"
proof -
  from assms have "unat i < unat n" by (simp add: word_less_nat_alt)
  moreover have "unat n < 2 ^ 64" using unsigned_less [of n] by simp
  ultimately have "unat i + 1 < 2 ^ 64" by simp
  then show ?thesis by (simp add: unat_word_ariths)
qed

lemma index_Item [simp]: "index (Item b i) k = Item b (i + k)"
  by (simp add: index_def)

lemma index_Null [simp]: "index Null k = Null"
  by (simp add: index_def)

lemma store_Item:
  "block_of m b = Some cs \<Longrightarrow> i < length cs \<Longrightarrow>
   store (Item b i) v m = Inr (m\<lparr>blocks := (blocks m)[b := Some (cs[i := Some v])]\<rparr>)"
  by (simp add: store_def)

lemma block_of_update:
  "block_of m b = Some cs \<Longrightarrow> block_of (m\<lparr>blocks := (blocks m)[b := c]\<rparr>) b' = (if b' = b then c else block_of m b')"
  by (auto simp: block_of_def split: if_splits)

lemma size_t_pred: fixes n :: size_t shows "0 < n \<Longrightarrow> unat (n - 1) = unat n - 1"
  by (simp add: unat_minus_one word_neq_0_conv)

lemma get_slab_loop_closed:
  "block_of m b = Some cs \<Longrightarrow> length cs = unat n \<Longrightarrow> 0 < n \<Longrightarrow> i \<le> n - 1 \<Longrightarrow>
   get_slab_loop n (Item b 0) i m =
     Inr (m\<lparr>blocks := (blocks m)[b := Some (map (\<lambda>j. if unat i \<le> j \<and> Suc j < unat n
                 then Some (Item b (Suc j)) else cs ! j) [0..<unat n])]\<rparr>)"
proof (induction n "Item b 0" i m arbitrary: cs rule: get_slab_loop.induct)
  case (1 n i m)
  have pred: "unat (n - 1) = unat n - 1" using "1.prems"(3) by (rule size_t_pred)
  show ?case
  proof (cases "i < n - 1")
    case True
    then have lt: "unat i < unat n - 1" by (simp add: word_less_nat_alt pred)
    have suc: "unat (i + 1) = Suc (unat i)" using True by (rule size_t_succ)
    let ?cs1 = "cs[unat i := Some (Item b (Suc (unat i)))]"
    let ?m1 = "m\<lparr>blocks := (blocks m)[b := Some ?cs1]\<rparr>"
    have st: "store (index (Item b 0) (unat i)) (index (Item b 0) (unat (i + 1))) m = Inr ?m1"
      using "1.prems"(1,2) lt by (simp add: store_Item suc)
    have le: "i + 1 \<le> n - 1" using True lt suc by (simp add: word_le_nat_alt pred)
    have b1: "block_of ?m1 b = Some ?cs1"
      using "1.prems"(1) by (simp add: block_of_update)
    have ih: "get_slab_loop n (Item b 0) (i + 1) ?m1 =
       Inr (?m1\<lparr>blocks := (blocks ?m1)[b := Some (map (\<lambda>j. if unat (i + 1) \<le> j \<and> Suc j < unat n
                 then Some (Item b (Suc j)) else ?cs1 ! j) [0..<unat n])]\<rparr>)"
      using "1.hyps" [OF True st b1 _ "1.prems"(3) le] "1.prems"(2) by simp
    have eq: "map (\<lambda>j. if unat (i + 1) \<le> j \<and> Suc j < unat n
                 then Some (Item b (Suc j)) else ?cs1 ! j) [0..<unat n]
            = map (\<lambda>j. if unat i \<le> j \<and> Suc j < unat n
                 then Some (Item b (Suc j)) else cs ! j) [0..<unat n]"
      using lt "1.prems"(2) by (auto simp: suc nth_list_update)
    show ?thesis
      by (subst get_slab_loop.simps) (simp add: True st [simplified] ih eq)
  next
    case False
    with "1.prems"(4) have "i = n - 1" by simp
    then have ui: "unat i = unat n - 1" by (simp add: pred)
    have "map (\<lambda>j. if unat i \<le> j \<and> Suc j < unat n
                 then Some (Item b (Suc j)) else cs ! j) [0..<unat n] = cs"
      using "1.prems"(2) by (auto simp: ui intro!: nth_equalityI)
    moreover have "(blocks m)[b := Some cs] = blocks m"
      using "1.prems"(1) by (auto simp: block_of_def list_update_same_conv split: if_splits)
    ultimately show ?thesis
      by (subst get_slab_loop.simps) (simp add: False)
  qed
qed

lemma linked_length [simp]: "length (linked b k) = k"
  by (simp add: linked_def)

lemma linked_nth: "j < k \<Longrightarrow> linked b k ! j = Some (if Suc j < k then Item b (Suc j) else Null)"
  by (simp add: linked_def)

lemma get_slab_granted:
  assumes "grants m" "0 < n"
  shows "get_slab n e m =
     Inr (Item (length (blocks m)) 0, e,
          m\<lparr>plan := tl (plan m), requests := requests m @ [n],
            blocks := blocks m @ [Some (linked (length (blocks m)) (unat n))]\<rparr>)"
proof -
  let ?b = "length (blocks m)"
  let ?cs = "replicate (unat n) (None :: ptr option)"
  let ?m1 = "m\<lparr>plan := tl (plan m), requests := requests m @ [n],
              blocks := blocks m @ [Some ?cs]\<rparr>"
  have pos: "0 < unat n" using assms(2) by (simp add: word_less_nat_alt)
  have al: "csnip_mem_Alloc n e m = (Item ?b 0, e, ?m1)"
    using assms(1) by (simp add: csnip_mem_Alloc_def)
  have b1: "block_of ?m1 ?b = Some ?cs" by (simp add: block_of_def)
  have lp: "get_slab_loop n (Item ?b 0) 0 ?m1 =
     Inr (?m1\<lparr>blocks := (blocks ?m1)[?b := Some (map (\<lambda>j. if unat (0::size_t) \<le> j \<and> Suc j < unat n
                 then Some (Item ?b (Suc j)) else ?cs ! j) [0..<unat n])]\<rparr>)"
    by (rule get_slab_loop_closed [OF b1 _ assms(2)]) simp_all
  let ?cs2 = "map (\<lambda>j. if Suc j < unat n then Some (Item ?b (Suc j)) else ?cs ! j) [0..<unat n]"
  let ?m2 = "m\<lparr>plan := tl (plan m), requests := requests m @ [n],
              blocks := blocks m @ [Some ?cs2]\<rparr>"
  have lp': "get_slab_loop n (Item ?b 0) 0 ?m1 = Inr ?m2"
    by (simp add: lp)
  have b2: "block_of ?m2 ?b = Some ?cs2" by (simp add: block_of_def)
  have "?cs2[unat n - 1 := Some Null] = linked ?b (unat n)"
    using pos by (auto simp: linked_def nth_list_update intro!: nth_equalityI)
  then have st: "store (Item ?b (unat (n - 1))) Null ?m2 =
      Inr (m\<lparr>plan := tl (plan m), requests := requests m @ [n],
            blocks := blocks m @ [Some (linked ?b (unat n))]\<rparr>)"
    using pos by (simp add: store_Item [OF b2] size_t_pred [OF assms(2)])
  show ?thesis
    by (simp add: get_slab_def al lp' st)
qed

lemma get_slab_refused:
  "\<not> grants m \<Longrightarrow> get_slab n e m =
     Inr (Null, AllocationFailure, m\<lparr>plan := tl (plan m), requests := requests m @ [n]\<rparr>)"
  by (simp add: get_slab_def csnip_mem_Alloc_def)


subsection \<open>Cells and free lists under stores and allocations\<close>

lemma store_valid:
  "valid_item m x \<Longrightarrow> \<exists>m1. store x v m = Inr m1"
  by (auto simp: valid_item_def store_def split: ptr.splits option.splits)

lemma load_valid:
  "load x m = Inr v \<Longrightarrow> valid_item m x"
  by (auto simp: valid_item_def load_def split: ptr.splits option.splits if_splits)

lemma store_load:
  "store x v m = Inr m1 \<Longrightarrow> load y m1 = (if y = x then Inr v else load y m)"
  by (cases x; cases y)
     (auto simp: store_def load_def block_of_def nth_list_update
           split: option.splits if_splits)

lemma store_valid_item:
  "store x v m = Inr m1 \<Longrightarrow> valid_item m1 y = valid_item m y"
  by (cases x; cases y)
     (auto simp: store_def valid_item_def block_of_def nth_list_update
           split: option.splits if_splits)

lemma store_requests:
  "store x v m = Inr m1 \<Longrightarrow> requests m1 = requests m \<and> plan m1 = plan m"
  by (auto simp: store_def split: ptr.splits option.splits if_splits)

lemma fl_path_store:
  "store x v m = Inr m1 \<Longrightarrow> x \<notin> set xs \<Longrightarrow> fl_path m1 p xs = fl_path m p xs"
  by (induction xs arbitrary: p) (auto simp: store_load split: sum.splits)

text \<open>Blocks appended to the memory leave the cells of the others as they are.\<close>

lemma valid_item_old:
  "valid_item m (Item b i) \<Longrightarrow> b < length (blocks m)"
  by (auto simp: valid_item_def block_of_def split: option.splits if_splits)

lemma valid_item_extend:
  "valid_item m y \<Longrightarrow> blocks m1 = blocks m @ bs \<Longrightarrow> valid_item m1 y"
  by (cases y) (auto simp: valid_item_def block_of_def nth_append split: option.splits if_splits)

lemma load_linked:
  "block_of m b = Some (linked b k) \<Longrightarrow> j < k \<Longrightarrow>
   load (Item b j) m = Inr (if Suc j < k then Item b (Suc j) else Null)"
  by (simp add: load_def linked_nth)

lemma fl_path_linked:
  "block_of m b = Some (linked b k) \<Longrightarrow> j < k \<Longrightarrow> fl_path m (Item b j) (map (Item b) [j..<k])"
proof (induction "k - j" arbitrary: j)
  case 0
  then show ?case by simp
next
  case (Suc d)
  have up: "[j..<k] = j # [Suc j..<k]" using Suc.prems(2) by (simp add: upt_conv_Cons)
  show ?case
  proof (cases "Suc j < k")
    case True
    from Suc.hyps(2) have "d = k - Suc j" by simp
    from Suc.hyps(1) [OF this Suc.prems(1) True] show ?thesis
      using load_linked [OF Suc.prems] True by (simp add: up)
  next
    case False
    with Suc.prems(2) have "[Suc j..<k] = []" by simp
    then show ?thesis using load_linked [OF Suc.prems] False by (simp add: up)
  qed
qed

subsection \<open>The operations on a pool whose free list is a list\<close>

lemma pool_inv_fl: "pool_inv p m live = (\<exists>fl. pool_fl p m fl live)"
  by (simp add: pool_inv_def pool_fl_def)

lemma fl_path_Null [simp]: "fl_path m Null xs = (xs = [])"
  by (cases xs) (auto simp: load_def)

lemma growth_size_max:
  fixes sz :: size_t
  shows "(if sz < 8 then 8 else sz) = max 8 sz"
  by (auto simp: max_def)

lemma growth_size_pos:
  fixes sz :: size_t
  shows "0 < max 8 sz" and "8 \<le> unat (max 8 sz)"
proof -
  have "(8::size_t) \<le> max 8 sz" by simp
  then show "8 \<le> unat (max 8 sz)" by (simp add: word_le_nat_alt)
  then show "0 < max 8 sz" by (simp add: word_less_nat_alt)
qed

lemma alloc_item_nonempty:
  "first_free p \<noteq> Null \<Longrightarrow>
   alloc_item p e m =
     (case load (first_free p) m of
        Inl f \<Rightarrow> Inl f
      | Inr nx \<Rightarrow> Inr (first_free p, p\<lparr>n_items := n_items p + 1, first_free := nx\<rparr>, e, m))"
  by (simp add: alloc_item_def alloc_item_refill_def alloc_item_pop_def split: sum.splits)

lemma alloc_item_refill_granted:
  assumes "first_free p = Null" "grants m"
  shows "alloc_item_refill p e m =
     Inr (p\<lparr>first_free := Item (length (blocks m)) 0\<rparr>, e,
          m\<lparr>plan := tl (plan m), requests := requests m @ [max 8 (n_items p)],
            blocks := blocks m @ [Some (linked (length (blocks m)) (unat (max 8 (n_items p))))]\<rparr>)"
  using assms get_slab_granted [OF assms(2) growth_size_pos(1) [of "n_items p"], where e = e]
  by (simp add: alloc_item_refill_def growth_size_max)

lemma alloc_item_refill_refused:
  assumes "first_free p = Null" "\<not> grants m"
  shows "alloc_item_refill p e m =
     Inr (p, AllocationFailure,
          m\<lparr>plan := tl (plan m), requests := requests m @ [max 8 (n_items p)]\<rparr>)"
proof -
  have "p\<lparr>first_free := Null\<rparr> = p" using assms(1) by (cases p) simp
  then show ?thesis
    using assms by (simp add: alloc_item_refill_def growth_size_max get_slab_refused)
qed

lemma alloc_item_grow:
  assumes "first_free p = Null" "grants m"
  shows "alloc_item p e m =
     Inr (Item (length (blocks m)) 0,
          p\<lparr>n_items := n_items p + 1, first_free := Item (length (blocks m)) 1\<rparr>, e,
          m\<lparr>plan := tl (plan m), requests := requests m @ [max 8 (n_items p)],
            blocks := blocks m @ [Some (linked (length (blocks m)) (unat (max 8 (n_items p))))]\<rparr>)"
proof -
  let ?b = "length (blocks m)"
  let ?k = "unat (max 8 (n_items p))"
  let ?m1 = "m\<lparr>plan := tl (plan m), requests := requests m @ [max 8 (n_items p)],
            blocks := blocks m @ [Some (linked ?b ?k)]\<rparr>"
  have k: "8 \<le> ?k" by (rule growth_size_pos)
  have "block_of ?m1 ?b = Some (linked ?b ?k)" by (simp add: block_of_def)
  from load_linked [OF this, of 0] k have "load (Item ?b 0) ?m1 = Inr (Item ?b 1)" by simp
  then show ?thesis
    by (simp add: alloc_item_def alloc_item_refill_granted [OF assms] alloc_item_pop_def)
qed

lemma alloc_item_exhausted:
  "first_free p = Null \<Longrightarrow> \<not> grants m \<Longrightarrow> alloc_item p e m = Inl AssertionFailed"
  by (simp add: alloc_item_def alloc_item_refill_refused alloc_item_pop_def)

lemma alloc_item_fl:
  assumes inv: "pool_fl p m fl live" and a: "alloc_item p e m = Inr (it, p1, e1, m1)"
  shows "\<exists>fl1. pool_fl p1 m1 fl1 (it # live) \<and> (fl \<noteq> [] \<longrightarrow> fl = it # fl1 \<and> m1 = m \<and> e1 = e)"
proof (cases "first_free p = Null")
  case False
  from inv have path: "fl_path m (first_free p) fl" and d: "distinct (fl @ live)"
    and v: "\<forall>x \<in> set live. valid_item m x" by (simp_all add: pool_fl_def)
  from False path obtain x fl1 where fl: "fl = x # fl1" by (cases fl) auto
  with path obtain nx where x: "first_free p = x" and l: "load x m = Inr nx"
    and p1: "fl_path m nx fl1" by (auto split: sum.splits)
  from a False x l have r: "it = x" "p1 = p\<lparr>n_items := n_items p + 1, first_free := nx\<rparr>"
    "e1 = e" "m1 = m" by (simp_all add: alloc_item_nonempty)
  have "pool_fl p1 m1 fl1 (it # live)"
    using p1 d v load_valid [OF l] by (simp add: pool_fl_def r fl)
  then show ?thesis using r fl by auto
next
  case True
  from inv True have fl: "fl = []" and d: "distinct live"
    and v: "\<forall>x \<in> set live. valid_item m x" by (simp_all add: pool_fl_def)
  from a True have g: "grants m" by (rule_tac ccontr) (simp add: alloc_item_exhausted)
  let ?b = "length (blocks m)"
  let ?k = "unat (max 8 (n_items p))"
  let ?m1 = "m\<lparr>plan := tl (plan m), requests := requests m @ [max 8 (n_items p)],
            blocks := blocks m @ [Some (linked ?b ?k)]\<rparr>"
  from a have r: "it = Item ?b 0" "p1 = p\<lparr>n_items := n_items p + 1, first_free := Item ?b 1\<rparr>"
    "m1 = ?m1" by (simp_all add: alloc_item_grow [OF True g])
  have k: "8 \<le> ?k" by (rule growth_size_pos)
  have b1: "block_of ?m1 ?b = Some (linked ?b ?k)" by (simp add: block_of_def)
  have ext: "blocks ?m1 = blocks m @ [Some (linked ?b ?k)]" by simp
  have path: "fl_path ?m1 (Item ?b 1) (map (Item ?b) [1..<?k])"
    using fl_path_linked [OF b1, of 1] k by simp
  have old: "\<And>i. Item ?b i \<notin> set live"
    using v valid_item_old by blast
  have v1: "\<forall>x \<in> set (it # live). valid_item ?m1 x"
    using v valid_item_extend [OF _ ext] k b1 by (auto simp: r valid_item_def)
  have "distinct (map (Item ?b) [1..<?k] @ it # live)"
    using d old by (auto simp: r distinct_map inj_on_def)
  with path v1 have "pool_fl p1 m1 (map (Item ?b) [1..<?k]) (it # live)"
    by (simp add: pool_fl_def r)
  then show ?thesis using fl by blast
qed

lemma free_item_fl:
  assumes inv: "pool_fl p m fl live" and x: "x \<in> set live"
  shows "\<exists>m1. free_item p x m = Inr (p\<lparr>first_free := x\<rparr>, m1) \<and>
              pool_fl (p\<lparr>first_free := x\<rparr>) m1 (x # fl) (remove1 x live) \<and>
              requests m1 = requests m \<and> plan m1 = plan m"
proof -
  from inv have path: "fl_path m (first_free p) fl" and d: "distinct (fl @ live)"
    and v: "\<forall>x \<in> set live. valid_item m x" by (simp_all add: pool_fl_def)
  from v x obtain m1 where st: "store x (first_free p) m = Inr m1"
    using store_valid by blast
  from d x have nfl: "x \<notin> set fl" by auto
  have path1: "fl_path m1 x (x # fl)"
    using fl_path_store [OF st nfl] path by (simp add: store_load [OF st])
  have "distinct ((x # fl) @ remove1 x live)"
    using d x nfl by (auto dest: notin_set_remove1)
  moreover have "\<forall>y \<in> set (remove1 x live). valid_item m1 y"
    using v by (auto simp: store_valid_item [OF st] dest: notin_set_remove1)
  ultimately have "pool_fl (p\<lparr>first_free := x\<rparr>) m1 (x # fl) (remove1 x live)"
    using path1 by (simp add: pool_fl_def)
  then show ?thesis using st store_requests [OF st] by (simp add: free_item_def)
qed

lemma run_pool_inv:
  "pool_inv p m live \<Longrightarrow> run ops p e m live = Inr (p1, e1, m1, live1) \<Longrightarrow>
   pool_inv p1 m1 live1"
proof (induction ops arbitrary: p e m live)
  case Nil
  then show ?case by simp
next
  case (Cons a ops)
  from Cons.prems(1) obtain fl where fl: "pool_fl p m fl live" by (auto simp: pool_inv_fl)
  show ?case
  proof (cases a)
    case Acquire
    with Cons.prems(2) obtain it p' e' m' where
      a: "alloc_item p e m = Inr (it, p', e', m')" and
      r: "run ops p' e' m' (it # live) = Inr (p1, e1, m1, live1)"
      by (auto split: sum.splits)
    from alloc_item_fl [OF fl a] have "pool_inv p' m' (it # live)" by (auto simp: pool_inv_fl)
    from Cons.IH [OF this r] show ?thesis .
  next
    case (Release x)
    with Cons.prems(2) obtain p' m' where
      x: "x \<in> set live" and
      a: "free_item p x m = Inr (p', m')" and
      r: "run ops p' e m' (remove1 x live) = Inr (p1, e1, m1, live1)"
      by (auto split: sum.splits if_splits)
    from free_item_fl [OF fl x] a have "pool_inv p' m' (remove1 x live)"
      by (auto simp: pool_inv_fl)
    from Cons.IH [OF this r] show ?thesis .
  qed
qed

subsection \<open>The constructors\<close>

lemma size_t_zero:
  fixes n :: size_t
  shows "\<not> 0 < n \<Longrightarrow> n = 0"
  by (simp add: word_neq_0_conv [symmetric])

lemma get_slab_zero:
  "grants m \<Longrightarrow> get_slab 0 e m = Inl InvalidAccess"
  by (simp add: get_slab_def csnip_mem_Alloc_def get_slab_loop.simps [of 0] store_def block_of_def)

lemma init_with_cap_granted:
  assumes "grants m" "0 < cap" "grants (m\<lparr>plan := tl (plan m)\<rparr>)"
  shows "init_with_cap cap e m =
     Inr (\<lparr>slabs = Item (Suc (length (blocks m))) 0, n_slabs = 1, cap_slabs = 1, n_items = 0,
           first_free = Item (length (blocks m)) 0\<rparr>, e,
          m\<lparr>plan := tl (tl (plan m)), requests := requests m @ [cap, 1],
            blocks := blocks m @ [Some (linked (length (blocks m)) (unat cap)),
                                   Some [Some (Item (length (blocks m)) 0)]]\<rparr>)"
proof -
  have "grants (m\<lparr>plan := tl (plan m), requests := requests m @ [cap],
            blocks := blocks m @ [Some (linked (length (blocks m)) (unat cap))]\<rparr>)"
    using assms(3) by (simp add: grants_def)
  then show ?thesis
    by (simp add: init_with_cap_def get_slab_granted [OF assms(1,2)] csnip_mem_Alloc_def
        store_def block_of_def nth_append list_update_append)
qed

lemma init_with_cap_refused:
  assumes "\<not> grants m" "grants (m\<lparr>plan := tl (plan m)\<rparr>)"
  shows "init_with_cap cap e m =
     Inr (\<lparr>slabs = Item (length (blocks m)) 0, n_slabs = 1, cap_slabs = 1, n_items = 0,
           first_free = Null\<rparr>, AllocationFailure,
          m\<lparr>plan := tl (tl (plan m)), requests := requests m @ [cap, 1],
            blocks := blocks m @ [Some [Some Null]]\<rparr>)"
proof -
  have "grants (m\<lparr>plan := tl (plan m), requests := requests m @ [cap]\<rparr>)"
    using assms(2) by (simp add: grants_def)
  then show ?thesis
    by (simp add: init_with_cap_def get_slab_refused [OF assms(1)] csnip_mem_Alloc_def
        store_def block_of_def)
qed

lemma init_with_cap_no_index:
  assumes "\<not> grants (m\<lparr>plan := tl (plan m)\<rparr>)"
  shows "init_with_cap cap e m = Inl InvalidAccess"
proof (cases "grants m")
  case True
  show ?thesis
  proof (cases "0 < cap")
    case False
    then have "cap = 0" by (rule size_t_zero)
    then show ?thesis by (simp add: init_with_cap_def get_slab_zero [OF True])
  next
    case pos: True
    have "\<not> grants (m\<lparr>plan := tl (plan m), requests := requests m @ [cap],
            blocks := blocks m @ [Some (linked (length (blocks m)) (unat cap))]\<rparr>)"
      using assms by (simp add: grants_def)
    then show ?thesis
      by (simp add: init_with_cap_def get_slab_granted [OF True pos] csnip_mem_Alloc_def
          store_def)
  qed
next
  case False
  have "\<not> grants (m\<lparr>plan := tl (plan m), requests := requests m @ [cap]\<rparr>)"
    using assms by (simp add: grants_def)
  then show ?thesis
    by (simp add: init_with_cap_def get_slab_refused [OF False] csnip_mem_Alloc_def store_def)
qed

lemma init_with_cap_inv:
  assumes "init_with_cap cap e0 m0 = Inr (p, e, m)"
  shows "pool_inv p m []"
proof -
  have g2: "grants (m0\<lparr>plan := tl (plan m0)\<rparr>)"
    using assms by (rule_tac ccontr) (simp add: init_with_cap_no_index)
  show ?thesis
  proof (cases "grants m0")
    case False
    from assms show ?thesis
      by (auto simp: init_with_cap_refused [OF False g2] pool_inv_def)
  next
    case True
    have pos: "0 < cap"
    proof (rule ccontr)
      assume "\<not> 0 < cap"
      then have "cap = 0" by (rule size_t_zero)
      with assms show False by (simp add: init_with_cap_def get_slab_zero [OF True])
    qed
    then have k: "0 < unat cap" by (simp add: word_less_nat_alt)
    let ?b = "length (blocks m0)"
    from assms have m: "m = m0\<lparr>plan := tl (tl (plan m0)), requests := requests m0 @ [cap, 1],
            blocks := blocks m0 @ [Some (linked ?b (unat cap)), Some [Some (Item ?b 0)]]\<rparr>"
      and p: "first_free p = Item ?b 0"
      by (auto simp: init_with_cap_granted [OF True pos g2])
    have "block_of m ?b = Some (linked ?b (unat cap))" by (simp add: m block_of_def nth_append)
    from fl_path_linked [OF this k] have "fl_path m (first_free p) (map (Item ?b) [0..<unat cap])"
      by (simp add: p)
    moreover have "distinct (map (Item ?b) [0..<unat cap])" by (simp add: distinct_map inj_on_def)
    ultimately show ?thesis unfolding pool_inv_def by fastforce
  qed
qed

lemma init_empty_inv:
  "init_empty m0 = (p, m) \<Longrightarrow> pool_inv p m []"
  by (auto simp: init_empty_def pool_inv_def pool_null_def)

lemma constructed_inv:
  "init_empty m0 = (p, m) \<or> init_with_cap cap e0 m0 = Inr (p, e, m) \<Longrightarrow> pool_inv p m []"
  using init_empty_inv init_with_cap_inv by blast

subsection \<open>Runs of acquisitions and of releases\<close>

lemma run_acquire_live:
  "run (replicate n Acquire) p e m live = Inr (p1, e1, m1, live1) \<Longrightarrow>
   \<exists>xs. live1 = xs @ live \<and> length xs = n"
proof (induction n arbitrary: p e m live)
  case 0
  then show ?case by simp
next
  case (Suc n)
  from Suc.prems obtain it p' e' m' where
    r: "run (replicate n Acquire) p' e' m' (it # live) = Inr (p1, e1, m1, live1)"
    by (auto split: sum.splits)
  from Suc.IH [OF r] obtain xs where "live1 = xs @ it # live" "length xs = n" by blast
  then have "live1 = (xs @ [it]) @ live \<and> length (xs @ [it]) = Suc n" by simp
  then show ?case by blast
qed

lemma run_acquire_fl:
  "pool_fl p m (xs @ fl) live \<Longrightarrow>
   \<exists>p1. run (replicate (length xs) Acquire) p e m live = Inr (p1, e, m, rev xs @ live) \<and>
        pool_fl p1 m fl (rev xs @ live)"
proof (induction xs arbitrary: p live)
  case Nil
  then show ?case by simp
next
  case (Cons x xs)
  from Cons.prems have path: "fl_path m (first_free p) (x # xs @ fl)" by (simp add: pool_fl_def)
  then obtain nx where ff: "first_free p = x" and l: "load x m = Inr nx"
    by (auto split: sum.splits)
  from l have "x \<noteq> Null" by (auto simp: load_def)
  with ff l have a: "alloc_item p e m =
      Inr (x, p\<lparr>n_items := n_items p + 1, first_free := nx\<rparr>, e, m)"
    by (simp add: alloc_item_nonempty)
  from alloc_item_fl [OF Cons.prems a]
  have "pool_fl (p\<lparr>n_items := n_items p + 1, first_free := nx\<rparr>) m (xs @ fl) (x # live)"
    by simp
  from Cons.IH [OF this] a show ?case by simp
qed

lemma run_release_fl:
  "pool_fl p m fl live \<Longrightarrow> distinct ys \<Longrightarrow> set ys \<subseteq> set live \<Longrightarrow>
   \<exists>p1 m1. run (map Release ys) p e m live = Inr (p1, e, m1, fold remove1 ys live) \<and>
           pool_fl p1 m1 (rev ys @ fl) (fold remove1 ys live) \<and> requests m1 = requests m \<and>
           plan m1 = plan m"
proof (induction ys arbitrary: p m fl live)
  case Nil
  then show ?case by simp
next
  case (Cons y ys)
  from Cons.prems have y: "y \<in> set live" by simp
  from free_item_fl [OF Cons.prems(1) y] obtain m' where
    f: "free_item p y m = Inr (p\<lparr>first_free := y\<rparr>, m')" and
    inv: "pool_fl (p\<lparr>first_free := y\<rparr>) m' (y # fl) (remove1 y live)" and
    rq: "requests m' = requests m" "plan m' = plan m" by blast
  from Cons.prems(1) have "distinct live" by (simp add: pool_fl_def)
  with Cons.prems(2,3) have sub: "set ys \<subseteq> set (remove1 y live)" by auto
  from Cons.prems(2) have "distinct ys" by simp
  from Cons.IH [OF inv this sub] f y rq show ?case by auto
qed

lemma fold_remove1_all:
  "distinct ys \<Longrightarrow> set ys = set xs \<Longrightarrow> distinct (xs @ live) \<Longrightarrow>
   fold remove1 ys (xs @ live) = live"
proof (induction ys arbitrary: xs)
  case Nil
  then show ?case by simp
next
  case (Cons y ys)
  from Cons.prems have y: "y \<in> set xs" by auto
  from Cons.prems have "set ys = set (remove1 y xs)" by auto
  moreover from Cons.prems have "distinct (remove1 y xs @ live)" by auto
  moreover from Cons.prems have "distinct ys" by simp
  ultimately have "fold remove1 ys (remove1 y xs @ live) = live" by (rule Cons.IH [rotated])
  then show ?case using y by (simp add: remove1_append)
qed

lemma replicate_3: "replicate 3 x = [x, x, x]"
  by (simp add: numeral_3_eq_3)

lemma take_3: "take 3 [a, b, c, d] = [a, b, c]"
  by (simp add: numeral_3_eq_3)

text \<open>The equations that evaluate the operations on a given pool and memory.\<close>

lemmas pool_eval =
  alloc_item_def alloc_item_refill_def alloc_item_pop_def free_item_def
  init_with_cap_def deinit_def deinit_loop.simps csnip_mem_Alloc_def csnip_mem_Free_def
  get_slab_granted get_slab_refused grants_def load_def store_def block_of_def
  pool_null_def mem0_def

lemma linked_4:
  "linked b 4 = [Some (Item b 1), Some (Item b 2), Some (Item b 3), Some Null]"
  by (simp add: linked_def upt_rec)

lemma linked_8:
  "linked b 8 = [Some (Item b 1), Some (Item b 2), Some (Item b 3), Some (Item b 4),
     Some (Item b 5), Some (Item b 6), Some (Item b 7), Some Null]"
  by (simp add: linked_def upt_rec)

subsection \<open>Construct empty\<close>

text \<open>
  C9. \<open>init_empty\<close> returns the pool whose members are all zero: no slab array, slab
  counters zero, the counter \<open>n_items\<close> zero and an empty free list. It leaves the
  memory as it is: nothing is requested from the allocator, nothing is allocated.
\<close>

theorem init_empty_no_allocation:
  "init_empty m =
     (\<lparr>slabs = Null, n_slabs = 0, cap_slabs = 0, n_items = 0, first_free = Null\<rparr>, m)"
  by (simp add: init_empty_def pool_null_def)

subsection \<open>Slabs that the pool does not record\<close>

text \<open>
  C1 says that every slab the pool obtains is recorded in \<open>slabs\<close>, so that \<open>deinit\<close>
  releases it. \<open>alloc_item\<close> does not do that: on the empty pool, with an allocator that
  grants every request, the first acquisition obtains block 0 with 8 items and returns
  its first item, while \<open>n_slabs\<close> stays 0; \<open>deinit\<close> then releases nothing, and block 0
  is still allocated afterwards.
\<close>

theorem growth_slab_not_recorded:
  "alloc_item pool_null NoError \<lparr>blocks = [], plan = [], requests = []\<rparr> =
     Inr (Item 0 0, pool_null\<lparr>n_items := 1, first_free := Item 0 1\<rparr>, NoError,
          \<lparr>blocks = [Some (linked 0 8)], plan = [], requests = [8]\<rparr>)
   \<and> n_slabs (pool_null\<lparr>n_items := 1, first_free := Item 0 1\<rparr>) = 0
   \<and> deinit (pool_null\<lparr>n_items := 1, first_free := Item 0 1\<rparr>)
        \<lparr>blocks = [Some (linked 0 8)], plan = [], requests = [8]\<rparr> =
     Inr (pool_null, \<lparr>blocks = [Some (linked 0 8)], plan = [], requests = [8]\<rparr>)"
proof -
  have g: "grants \<lparr>blocks = [], plan = [], requests = []\<rparr>" by (simp add: grants_def)
  have "get_slab 8 NoError \<lparr>blocks = [], plan = [], requests = []\<rparr> =
      Inr (Item 0 0, NoError, \<lparr>blocks = [Some (linked 0 8)], plan = [], requests = [8]\<rparr>)"
    using get_slab_granted [OF g, of 8 NoError] by simp
  then have a: "alloc_item pool_null NoError \<lparr>blocks = [], plan = [], requests = []\<rparr> =
     Inr (Item 0 0, pool_null\<lparr>n_items := 1, first_free := Item 0 1\<rparr>, NoError,
          \<lparr>blocks = [Some (linked 0 8)], plan = [], requests = [8]\<rparr>)"
    by (simp add: alloc_item_def alloc_item_refill_def alloc_item_pop_def pool_null_def
        load_def block_of_def linked_8)
  have d: "deinit (pool_null\<lparr>n_items := 1, first_free := Item 0 1\<rparr>)
        \<lparr>blocks = [Some (linked 0 8)], plan = [], requests = [8]\<rparr> =
     Inr (pool_null, \<lparr>blocks = [Some (linked 0 8)], plan = [], requests = [8]\<rparr>)"
    by (simp add: deinit_def deinit_loop.simps pool_null_def csnip_mem_Free_def)
  show ?thesis using a d by (simp add: pool_null_def)
qed

subsection \<open>Allocation failures\<close>

text \<open>
  C2 says that \<open>alloc_item\<close> returns \<open>NULL\<close> and sets the error when the slab cannot be
  allocated. On the empty pool, with an allocator that refuses the request, \<open>get_slab\<close>
  returns \<open>NULL\<close>, \<open>first_free\<close> stays \<open>NULL\<close>, and \<open>assert(it != NULL)\<close> fails:
  \<open>alloc_item\<close> does not return.
\<close>

theorem alloc_item_asserts_on_exhaustion:
  "alloc_item pool_null NoError \<lparr>blocks = [], plan = [False], requests = []\<rparr> =
     Inl AssertionFailed"
  by (simp add: alloc_item_def alloc_item_refill_def alloc_item_pop_def pool_null_def
      get_slab_refused grants_def)

text \<open>
  C3 says that \<open>init_with_cap\<close> either succeeds or fails with an allocation failure
  and a pool that can be destroyed. With an allocator that grants the slab of 4 items
  and refuses the slab array, \<open>slabs\<close> is \<open>NULL\<close> and \<open>slabs[0] = sl\<close> writes through
  it: \<open>init_with_cap\<close> returns no pool.
\<close>

theorem init_with_cap_null_index:
  "init_with_cap 4 NoError \<lparr>blocks = [], plan = [True, False], requests = []\<rparr> =
     Inl InvalidAccess"
proof -
  have g: "grants \<lparr>blocks = [], plan = [True, False], requests = []\<rparr>"
    by (simp add: grants_def)
  show ?thesis
    using get_slab_granted [OF g, of 4 NoError]
    by (simp add: init_with_cap_def csnip_mem_Alloc_def grants_def store_def)
qed

subsection \<open>The counter of acquisitions\<close>

lemma alloc_item_n_items:
  "alloc_item p e m = Inr (it, p1, e1, m1) \<Longrightarrow> n_items p1 = n_items p + 1"
  by (auto simp: alloc_item_def alloc_item_refill_def alloc_item_pop_def Let_def
      split: if_splits sum.splits prod.splits)

lemma free_item_n_items:
  "free_item p x m = Inr (p1, m1) \<Longrightarrow> n_items p1 = n_items p"
  by (auto simp: free_item_def split: sum.splits)

lemma run_n_items:
  "run ops p e m live = Inr (p1, e1, m1, live1) \<Longrightarrow>
   n_items p1 = n_items p + of_nat (count_list ops Acquire)"
proof (induction ops arbitrary: p e m live)
  case Nil
  then show ?case by simp
next
  case (Cons a ops)
  show ?case
  proof (cases a)
    case Acquire
    with Cons.prems obtain it p' e' m' where
      a: "alloc_item p e m = Inr (it, p', e', m')" and
      r: "run ops p' e' m' (it # live) = Inr (p1, e1, m1, live1)"
      by (auto split: sum.splits)
    from Cons.IH [OF r] alloc_item_n_items [OF a] Acquire show ?thesis by simp
  next
    case (Release x)
    with Cons.prems obtain p' m' where
      a: "free_item p x m = Inr (p', m')" and
      r: "run ops p' e m' (remove1 x live) = Inr (p1, e1, m1, live1)"
      by (auto split: sum.splits if_splits)
    from Cons.IH [OF r] free_item_n_items [OF a] Release show ?thesis by simp
  qed
qed

lemma size_t_unat_add:
  fixes a :: size_t
  shows "unat a + k < 2 ^ 64 \<Longrightarrow> unat (a + of_nat k) = unat a + k"
  by (simp add: unat_word_ariths unat_of_nat take_bit_eq_mod)

text \<open>
  C7 as stated fails where the counter is \<open>SIZE_MAX\<close>: \<open>++pool->n_items\<close> wraps to 0, so
  the counter after a successful acquisition is below the counter before it.
\<close>

theorem n_items_wraps_counterexample:
  "alloc_item \<lparr>slabs = Null, n_slabs = 0, cap_slabs = 0, n_items = 18446744073709551615,
               first_free = Item 0 0\<rparr> NoError
              \<lparr>blocks = [Some [Some Null]], plan = [], requests = []\<rparr> =
     Inr (Item 0 0,
          \<lparr>slabs = Null, n_slabs = 0, cap_slabs = 0, n_items = 0, first_free = Null\<rparr>,
          NoError, \<lparr>blocks = [Some [Some Null]], plan = [], requests = []\<rparr>)
   \<and> n_items \<lparr>slabs = Null, n_slabs = 0, cap_slabs = 0, n_items = 0, first_free = Null\<rparr>
     < n_items \<lparr>slabs = Null, n_slabs = 0, cap_slabs = 0, n_items = 18446744073709551615,
               first_free = Item 0 0\<rparr>"
  by (simp add: alloc_item_def alloc_item_refill_def alloc_item_pop_def load_def block_of_def)

text \<open>
  C7, amended. A successful \<open>alloc_item\<close> adds one to \<open>n_items\<close> in \<open>size_t\<close> arithmetic,
  which is one more as a number unless the counter was \<open>SIZE_MAX\<close>; \<open>free_item\<close> leaves
  \<open>n_items\<close> as it is; over a run of acquisitions and releases that does not take the
  counter past \<open>SIZE_MAX\<close>, the counter grows by the number of acquisitions, and so
  never decreases.
\<close>

theorem n_items_counts_acquisitions:
  "(alloc_item p e m = Inr (it, p1, e1, m1) \<longrightarrow>
      n_items p1 = n_items p + 1 \<and>
      (unat (n_items p) + 1 < 2 ^ 64 \<longrightarrow> unat (n_items p1) = unat (n_items p) + 1))
   \<and> (free_item p x m = Inr (p2, m2) \<longrightarrow> n_items p2 = n_items p)
   \<and> (run ops p e m live = Inr (p3, e3, m3, live3) \<longrightarrow>
        unat (n_items p) + count_list ops Acquire < 2 ^ 64 \<longrightarrow>
        unat (n_items p3) = unat (n_items p) + count_list ops Acquire \<and>
        n_items p \<le> n_items p3)"
proof (intro conjI impI)
  assume a: "alloc_item p e m = Inr (it, p1, e1, m1)"
  then show "n_items p1 = n_items p + 1" by (rule alloc_item_n_items)
  assume "unat (n_items p) + 1 < 2 ^ 64"
  then show "unat (n_items p1) = unat (n_items p) + 1"
    using size_t_unat_add [of "n_items p" 1] alloc_item_n_items [OF a] by simp
next
  assume "free_item p x m = Inr (p2, m2)"
  then show "n_items p2 = n_items p" by (rule free_item_n_items)
next
  assume r: "run ops p e m live = Inr (p3, e3, m3, live3)"
    and b: "unat (n_items p) + count_list ops Acquire < 2 ^ 64"
  show u: "unat (n_items p3) = unat (n_items p) + count_list ops Acquire"
    using run_n_items [OF r] size_t_unat_add [OF b] by simp
  then show "n_items p \<le> n_items p3" by (simp add: word_le_nat_alt)
qed

theorem n_items_counts_acquisitions_witness:
  "alloc_item pool_null NoError mem0 =
     Inr (Item 0 0, pool_null\<lparr>n_items := 1, first_free := Item 0 1\<rparr>, NoError,
          \<lparr>blocks = [Some (linked 0 8)], plan = [], requests = [8]\<rparr>)
   \<and> n_items (pool_null\<lparr>n_items := 1, first_free := Item 0 1\<rparr>) = n_items pool_null + 1
   \<and> unat (n_items (pool_null\<lparr>n_items := 1, first_free := Item 0 1\<rparr>)) = unat (n_items pool_null) + 1
   \<and> free_item (pool_null\<lparr>n_items := 1, first_free := Item 0 1\<rparr>) (Item 0 0)
        \<lparr>blocks = [Some (linked 0 8)], plan = [], requests = [8]\<rparr> =
      Inr (pool_null\<lparr>n_items := 1, first_free := Item 0 0\<rparr>,
           \<lparr>blocks = [Some (linked 0 8)], plan = [], requests = [8]\<rparr>)
   \<and> run [Acquire, Release (Item 0 0), Acquire] pool_null NoError mem0 [] =
      Inr (pool_null\<lparr>n_items := 2, first_free := Item 0 1\<rparr>, NoError,
           \<lparr>blocks = [Some (linked 0 8)], plan = [], requests = [8]\<rparr>, [Item 0 0])
   \<and> n_items pool_null \<le> n_items (pool_null\<lparr>n_items := 2, first_free := Item 0 1\<rparr>)"
proof -
  let ?m1 = "\<lparr>blocks = [Some (linked 0 8)], plan = [], requests = [8]\<rparr>"
  let ?p1 = "pool_null\<lparr>n_items := 1, first_free := Item 0 1\<rparr>"
  have a: "alloc_item pool_null NoError mem0 = Inr (Item 0 0, ?p1, NoError, ?m1)"
    by (simp add: pool_eval linked_8)
  have f: "free_item ?p1 (Item 0 0) ?m1 = Inr (pool_null\<lparr>n_items := 1, first_free := Item 0 0\<rparr>, ?m1)"
    by (simp add: pool_eval linked_8)
  have r: "run [Acquire, Release (Item 0 0), Acquire] pool_null NoError mem0 [] =
      Inr (pool_null\<lparr>n_items := 2, first_free := Item 0 1\<rparr>, NoError, ?m1, [Item 0 0])"
    by (simp add: pool_eval linked_8)
  have b: "unat (n_items pool_null) + count_list [Acquire, Release (Item 0 0), Acquire] Acquire < 2 ^ 64"
    by (simp add: pool_null_def)
  have b1: "unat (n_items pool_null) + 1 < 2 ^ 64"
    by (simp add: pool_null_def)
  from n_items_counts_acquisitions [of pool_null NoError mem0 "Item 0 0" ?p1 NoError ?m1
      "Item 0 0" pool_null mem0 "[Acquire, Release (Item 0 0), Acquire]" "[]"
      "pool_null\<lparr>n_items := 2, first_free := Item 0 1\<rparr>" NoError ?m1 "[Item 0 0]"]
    a f r b b1
  show ?thesis by simp
qed


subsection \<open>No two items of a client are the same\<close>

text \<open>
  C6. A client starts with a pool from \<open>init_empty\<close> or from \<open>init_with_cap\<close> and
  acquires and releases items, releasing only items it holds. Whenever its run has
  come so far without a fault, the items it holds are pairwise different cells of
  allocated blocks, and the item that the next \<open>alloc_item\<close> returns is none of them.
  The run is any run, so this holds after each of its operations.
\<close>

theorem acquired_items_distinct:
  assumes "init_empty m0 = (p, m) \<or> init_with_cap cap e0 m0 = Inr (p, e, m)"
    and "run ops p e m [] = Inr (p1, e1, m1, live1)"
  shows "distinct live1 \<and> (\<forall>x \<in> set live1. valid_item m1 x) \<and>
         (\<forall>it p2 e2 m2. alloc_item p1 e1 m1 = Inr (it, p2, e2, m2) \<longrightarrow> it \<notin> set live1)"
proof -
  from constructed_inv [OF assms(1)] have "pool_inv p m []" .
  from run_pool_inv [OF this assms(2)] obtain fl where fl: "pool_fl p1 m1 fl live1"
    by (auto simp: pool_inv_fl)
  then have "distinct live1" and "\<forall>x \<in> set live1. valid_item m1 x"
    by (simp_all add: pool_fl_def)
  moreover have "it \<notin> set live1" if "alloc_item p1 e1 m1 = Inr (it, p2, e2, m2)" for it p2 e2 m2
    using alloc_item_fl [OF fl that] by (auto simp: pool_fl_def)
  ultimately show ?thesis by blast
qed

theorem acquired_items_distinct_witness:
  "init_with_cap 4 NoError mem0 =
     Inr (\<lparr>slabs = Item 1 0, n_slabs = 1, cap_slabs = 1, n_items = 0, first_free = Item 0 0\<rparr>,
          NoError,
          \<lparr>blocks = [Some (linked 0 4), Some [Some (Item 0 0)]], plan = [], requests = [4, 1]\<rparr>)
   \<and> run [Acquire, Acquire, Release (Item 0 0), Acquire, Acquire, Acquire, Acquire]
        \<lparr>slabs = Item 1 0, n_slabs = 1, cap_slabs = 1, n_items = 0, first_free = Item 0 0\<rparr>
        NoError
        \<lparr>blocks = [Some (linked 0 4), Some [Some (Item 0 0)]], plan = [], requests = [4, 1]\<rparr> [] =
     Inr (\<lparr>slabs = Item 1 0, n_slabs = 1, cap_slabs = 1, n_items = 6, first_free = Item 2 1\<rparr>,
          NoError,
          \<lparr>blocks = [Some [Some (Item 0 2), Some (Item 0 2), Some (Item 0 3), Some Null],
                     Some [Some (Item 0 0)], Some (linked 2 8)],
            plan = [], requests = [4, 1, 8]\<rparr>,
          [Item 2 0, Item 0 3, Item 0 2, Item 0 0, Item 0 1])
   \<and> distinct [Item 2 0, Item 0 3, Item 0 2, Item 0 0, Item 0 1]"
proof -
  let ?p0 = "\<lparr>slabs = Item 1 0, n_slabs = 1, cap_slabs = 1, n_items = 0, first_free = Item 0 0\<rparr>"
  let ?m0 = "\<lparr>blocks = [Some (linked 0 4), Some [Some (Item 0 0)]], plan = [], requests = [4, 1]\<rparr>"
  have c: "init_with_cap 4 NoError mem0 = Inr (?p0, NoError, ?m0)"
    by (simp add: pool_eval)
  have r: "run [Acquire, Acquire, Release (Item 0 0), Acquire, Acquire, Acquire, Acquire]
        ?p0 NoError ?m0 [] =
     Inr (\<lparr>slabs = Item 1 0, n_slabs = 1, cap_slabs = 1, n_items = 6, first_free = Item 2 1\<rparr>,
          NoError,
          \<lparr>blocks = [Some [Some (Item 0 2), Some (Item 0 2), Some (Item 0 3), Some Null],
                     Some [Some (Item 0 0)], Some (linked 2 8)],
            plan = [], requests = [4, 1, 8]\<rparr>,
          [Item 2 0, Item 0 3, Item 0 2, Item 0 0, Item 0 1])"
    by (simp add: pool_eval linked_4 linked_8)
  from acquired_items_distinct [OF disjI2 [OF c] r] c r show ?thesis by simp
qed

subsection \<open>Released items are reused\<close>

text \<open>
  C5. In any state that a client reaches from a constructed pool: releasing an item
  \<open>x\<close> it holds and then calling \<open>alloc_item\<close> returns \<open>x\<close> again and leaves the memory
  as \<open>free_item\<close> left it. And if the client acquires \<open>n\<close> items and releases these
  \<open>n\<close> items in any order \<open>ys\<close>, then \<open>n\<close> further acquisitions succeed, return the same
  items (the item released last comes first), all of them valid and different, and
  request nothing from the allocator: the memory stays as the releases left it.
\<close>

theorem released_items_are_reused:
  assumes "init_empty m0 = (p0, ms) \<or> init_with_cap cap e0 m0 = Inr (p0, es, ms)"
    and "run ops p0 es ms [] = Inr (p, e, m, live)"
  shows "(x \<in> set live \<longrightarrow>
            (\<exists>p1 m1 p2. free_item p x m = Inr (p1, m1) \<and>
                         alloc_item p1 e m1 = Inr (x, p2, e, m1)))
       \<and> (run (replicate n Acquire) p e m live = Inr (pa, ea, ma, livea) \<longrightarrow>
            distinct ys \<longrightarrow> set ys = set (take n livea) \<longrightarrow>
            (\<exists>pb mb pc. run (map Release ys) pa ea ma livea = Inr (pb, ea, mb, live) \<and>
                         run (replicate n Acquire) pb ea mb live = Inr (pc, ea, mb, ys @ live) \<and>
                         distinct (ys @ live) \<and> (\<forall>y \<in> set (ys @ live). valid_item mb y) \<and>
                         requests mb = requests ma))"
proof -
  from constructed_inv [OF assms(1)] have "pool_inv p0 ms []" .
  from run_pool_inv [OF this assms(2)] have inv: "pool_inv p m live" .
  then obtain fl where fl: "pool_fl p m fl live" by (auto simp: pool_inv_fl)
  have one: "\<exists>p1 m1 p2. free_item p x m = Inr (p1, m1) \<and>
                         alloc_item p1 e m1 = Inr (x, p2, e, m1)" if x: "x \<in> set live"
  proof -
    from free_item_fl [OF fl x] obtain m1 where
      f: "free_item p x m = Inr (p\<lparr>first_free := x\<rparr>, m1)" and
      inv1: "pool_fl (p\<lparr>first_free := x\<rparr>) m1 ([x] @ fl) (remove1 x live)" by auto
    from run_acquire_fl [OF inv1, of e] obtain p2 where
      "run [Acquire] (p\<lparr>first_free := x\<rparr>) e m1 (remove1 x live) =
         Inr (p2, e, m1, x # remove1 x live)" by auto
    then have "alloc_item (p\<lparr>first_free := x\<rparr>) e m1 = Inr (x, p2, e, m1)"
      by (auto split: sum.splits)
    with f show ?thesis by blast
  qed
  have all: "\<exists>pb mb pc. run (map Release ys) pa ea ma livea = Inr (pb, ea, mb, live) \<and>
                         run (replicate n Acquire) pb ea mb live = Inr (pc, ea, mb, ys @ live) \<and>
                         distinct (ys @ live) \<and> (\<forall>y \<in> set (ys @ live). valid_item mb y) \<and>
                         requests mb = requests ma"
    if r: "run (replicate n Acquire) p e m live = Inr (pa, ea, ma, livea)"
      and d: "distinct ys" and s: "set ys = set (take n livea)"
  proof -
    from run_pool_inv [OF inv r] obtain fla where fla: "pool_fl pa ma fla livea"
      by (auto simp: pool_inv_fl)
    from run_acquire_live [OF r] obtain xs where xs: "livea = xs @ live" "length xs = n"
      by blast
    with s have sx: "set ys = set xs" by simp
    from fla have dl: "distinct (xs @ live)" by (simp add: pool_fl_def xs)
    have len: "length ys = n"
      using d dl sx xs(2) by (metis distinct_append distinct_card)
    from sx have sub: "set ys \<subseteq> set livea" by (auto simp: xs)
    from run_release_fl [OF fla d sub, of ea] obtain pb mb where
      rel: "run (map Release ys) pa ea ma livea = Inr (pb, ea, mb, fold remove1 ys livea)" and
      invb: "pool_fl pb mb (rev ys @ fla) (fold remove1 ys livea)" and
      rq: "requests mb = requests ma" by blast
    have fr: "fold remove1 ys livea = live"
      unfolding xs by (rule fold_remove1_all [OF d sx dl])
    from run_acquire_fl [OF invb, of ea] obtain pc where
      acq: "run (replicate n Acquire) pb ea mb live = Inr (pc, ea, mb, ys @ live)" and
      invc: "pool_fl pc mb fla (ys @ live)"
      by (auto simp: fr len)
    from invc have "distinct (ys @ live)" "\<forall>y \<in> set (ys @ live). valid_item mb y"
      by (simp_all add: pool_fl_def)
    with rel acq rq fr show ?thesis by auto
  qed
  from one all show ?thesis by blast
qed

theorem released_items_are_reused_witness:
  "init_empty mem0 = (pool_null, mem0)
   \<and> run [Acquire] pool_null NoError mem0 [] =
      Inr (pool_null\<lparr>n_items := 1, first_free := Item 0 1\<rparr>, NoError,
           \<lparr>blocks = [Some (linked 0 8)], plan = [], requests = [8]\<rparr>, [Item 0 0])
   \<and> free_item (pool_null\<lparr>n_items := 1, first_free := Item 0 1\<rparr>) (Item 0 0)
        \<lparr>blocks = [Some (linked 0 8)], plan = [], requests = [8]\<rparr> =
      Inr (pool_null\<lparr>n_items := 1, first_free := Item 0 0\<rparr>,
           \<lparr>blocks = [Some (linked 0 8)], plan = [], requests = [8]\<rparr>)
   \<and> alloc_item (pool_null\<lparr>n_items := 1, first_free := Item 0 0\<rparr>) NoError
        \<lparr>blocks = [Some (linked 0 8)], plan = [], requests = [8]\<rparr> =
      Inr (Item 0 0, pool_null\<lparr>n_items := 2, first_free := Item 0 1\<rparr>, NoError,
           \<lparr>blocks = [Some (linked 0 8)], plan = [], requests = [8]\<rparr>)
   \<and> run (replicate 3 Acquire) (pool_null\<lparr>n_items := 1, first_free := Item 0 1\<rparr>) NoError
        \<lparr>blocks = [Some (linked 0 8)], plan = [], requests = [8]\<rparr> [Item 0 0] =
      Inr (pool_null\<lparr>n_items := 4, first_free := Item 0 4\<rparr>, NoError,
           \<lparr>blocks = [Some (linked 0 8)], plan = [], requests = [8]\<rparr>,
           [Item 0 3, Item 0 2, Item 0 1, Item 0 0])
   \<and> run (map Release [Item 0 2, Item 0 3, Item 0 1])
        (pool_null\<lparr>n_items := 4, first_free := Item 0 4\<rparr>) NoError
        \<lparr>blocks = [Some (linked 0 8)], plan = [], requests = [8]\<rparr>
        [Item 0 3, Item 0 2, Item 0 1, Item 0 0] =
      Inr (pool_null\<lparr>n_items := 4, first_free := Item 0 1\<rparr>, NoError,
           \<lparr>blocks = [Some [Some (Item 0 1), Some (Item 0 3), Some (Item 0 4), Some (Item 0 2),
                             Some (Item 0 5), Some (Item 0 6), Some (Item 0 7), Some Null]],
             plan = [], requests = [8]\<rparr>, [Item 0 0])
   \<and> run (replicate 3 Acquire) (pool_null\<lparr>n_items := 4, first_free := Item 0 1\<rparr>) NoError
        \<lparr>blocks = [Some [Some (Item 0 1), Some (Item 0 3), Some (Item 0 4), Some (Item 0 2),
                          Some (Item 0 5), Some (Item 0 6), Some (Item 0 7), Some Null]],
          plan = [], requests = [8]\<rparr> [Item 0 0] =
      Inr (pool_null\<lparr>n_items := 7, first_free := Item 0 4\<rparr>, NoError,
           \<lparr>blocks = [Some [Some (Item 0 1), Some (Item 0 3), Some (Item 0 4), Some (Item 0 2),
                             Some (Item 0 5), Some (Item 0 6), Some (Item 0 7), Some Null]],
             plan = [], requests = [8]\<rparr>,
           [Item 0 2, Item 0 3, Item 0 1] @ [Item 0 0])"
proof -
  let ?m = "\<lparr>blocks = [Some (linked 0 8)], plan = [], requests = [8]\<rparr>"
  let ?p = "pool_null\<lparr>n_items := 1, first_free := Item 0 1\<rparr>"
  have c: "init_empty mem0 = (pool_null, mem0)" by (simp add: init_empty_def)
  have r: "run [Acquire] pool_null NoError mem0 [] = Inr (?p, NoError, ?m, [Item 0 0])"
    by (simp add: pool_eval linked_8)
  have a: "run (replicate 3 Acquire) ?p NoError ?m [Item 0 0] =
      Inr (pool_null\<lparr>n_items := 4, first_free := Item 0 4\<rparr>, NoError, ?m,
           [Item 0 3, Item 0 2, Item 0 1, Item 0 0])"
    by (simp add: pool_eval linked_8 replicate_3)
  have d: "distinct [Item 0 2, Item 0 3, Item 0 1]" by simp
  have s: "set [Item 0 2, Item 0 3, Item 0 1] = set (take 3 [Item 0 3, Item 0 2, Item 0 1, Item 0 0])"
    by (auto simp: take_3)
  have x: "Item 0 0 \<in> set [Item 0 0]" by simp
  from released_items_are_reused [OF disjI1 [OF c] r, of "Item 0 0" 3
      "pool_null\<lparr>n_items := 4, first_free := Item 0 4\<rparr>" NoError ?m
      "[Item 0 3, Item 0 2, Item 0 1, Item 0 0]" "[Item 0 2, Item 0 3, Item 0 1]"] x a d s c r
  show ?thesis
    by (simp add: pool_eval linked_8 replicate_3)
qed


subsection \<open>Destroy\<close>

text \<open>
  C10. When \<open>deinit\<close> returns, the pool is the pool that \<open>init_empty\<close> returns: every
  member is zero. So \<open>deinit\<close> on the destroyed pool returns again, with the same pool
  and the memory untouched, and the destroyed pool is a pool a client can start from,
  as a fresh one. (\<open>csnip_mem_Free(NULL)\<close> does nothing, as C's \<open>free\<close>.)
\<close>

theorem deinit_resets_pool:
  assumes "deinit p m = Inr (p1, m1)"
  shows "(p1, m1) = init_empty m1 \<and> deinit p1 m1 = Inr (p1, m1) \<and> pool_inv p1 m1 []"
proof -
  from assms have p1: "p1 = pool_null"
    by (auto simp: deinit_def split: sum.splits)
  have "deinit_loop pool_null 0 m1 = Inr m1"
    by (subst deinit_loop.simps) (simp add: pool_null_def)
  then have "deinit pool_null m1 = Inr (pool_null, m1)"
    by (simp add: deinit_def csnip_mem_Free_def pool_null_def)
  moreover have "pool_inv pool_null m1 []"
    by (rule init_empty_inv) (simp add: init_empty_def)
  ultimately show ?thesis by (simp add: p1 init_empty_def)
qed

theorem deinit_resets_pool_witness:
  "init_with_cap 4 NoError mem0 =
     Inr (\<lparr>slabs = Item 1 0, n_slabs = 1, cap_slabs = 1, n_items = 0, first_free = Item 0 0\<rparr>,
          NoError,
          \<lparr>blocks = [Some (linked 0 4), Some [Some (Item 0 0)]], plan = [], requests = [4, 1]\<rparr>)
   \<and> deinit \<lparr>slabs = Item 1 0, n_slabs = 1, cap_slabs = 1, n_items = 0, first_free = Item 0 0\<rparr>
        \<lparr>blocks = [Some (linked 0 4), Some [Some (Item 0 0)]], plan = [], requests = [4, 1]\<rparr> =
      Inr (pool_null, \<lparr>blocks = [None, None], plan = [], requests = [4, 1]\<rparr>)
   \<and> (pool_null, \<lparr>blocks = [None, None], plan = [], requests = [4, 1]\<rparr>) =
      init_empty \<lparr>blocks = [None, None], plan = [], requests = [4, 1]\<rparr>
   \<and> deinit pool_null \<lparr>blocks = [None, None], plan = [], requests = [4, 1]\<rparr> =
      Inr (pool_null, \<lparr>blocks = [None, None], plan = [], requests = [4, 1]\<rparr>)"
proof -
  let ?p0 = "\<lparr>slabs = Item 1 0, n_slabs = 1, cap_slabs = 1, n_items = 0, first_free = Item 0 0\<rparr>"
  let ?m0 = "\<lparr>blocks = [Some (linked 0 4), Some [Some (Item 0 0)]], plan = [], requests = [4, 1]\<rparr>"
  have c: "init_with_cap 4 NoError mem0 = Inr (?p0, NoError, ?m0)"
    by (simp add: pool_eval)
  have d: "deinit ?p0 ?m0 = Inr (pool_null, \<lparr>blocks = [None, None], plan = [], requests = [4, 1]\<rparr>)"
    by (simp add: deinit_def deinit_loop.simps [of _ 0] deinit_loop.simps [of _ 1] load_def
        block_of_def csnip_mem_Free_def index_def)
  from deinit_resets_pool [OF d] c d show ?thesis by simp
qed

subsection \<open>The links of a new slab\<close>

text \<open>
  C8. When the allocator grants a slab of \<open>g\<close> items, \<open>g\<close> at least 1, \<open>get_slab\<close>
  returns its first item, and in the memory it leaves, the pointer overlaid on item
  \<open>i\<close> is the address of item \<open>i + 1\<close> for every \<open>i + 1 < g\<close> and the one on the last
  item is \<open>NULL\<close>: from the first item the links visit the \<open>g\<close> items in order and
  end. In \<open>alloc_item\<close>, where the free list is empty and \<open>g\<close> is the growth size, the
  block under "More memory needed ?" makes that first item the head of the free list.
\<close>

theorem get_slab_links_items:
  assumes "grants m" "0 < g"
  shows "\<exists>m1. get_slab g e m = Inr (Item (length (blocks m)) 0, e, m1) \<and>
      (\<forall>i. Suc i < unat g \<longrightarrow>
           load (Item (length (blocks m)) i) m1 = Inr (Item (length (blocks m)) (Suc i))) \<and>
      load (Item (length (blocks m)) (unat g - 1)) m1 = Inr Null \<and>
      fl_path m1 (Item (length (blocks m)) 0) (map (Item (length (blocks m))) [0..<unat g]) \<and>
      (first_free p = Null \<and> g = max 8 (n_items p) \<longrightarrow>
         alloc_item_refill p e m = Inr (p\<lparr>first_free := Item (length (blocks m)) 0\<rparr>, e, m1))"
proof -
  let ?b = "length (blocks m)"
  let ?m1 = "m\<lparr>plan := tl (plan m), requests := requests m @ [g],
            blocks := blocks m @ [Some (linked ?b (unat g))]\<rparr>"
  from assms(2) have k: "0 < unat g" by (simp add: word_less_nat_alt)
  have gs: "get_slab g e m = Inr (Item ?b 0, e, ?m1)"
    by (rule get_slab_granted [OF assms])
  have b1: "block_of ?m1 ?b = Some (linked ?b (unat g))" by (simp add: block_of_def)
  have "load (Item ?b i) ?m1 = Inr (Item ?b (Suc i))" if "Suc i < unat g" for i
    using load_linked [OF b1, of i] that by simp
  moreover have "load (Item ?b (unat g - 1)) ?m1 = Inr Null"
    using load_linked [OF b1, of "unat g - 1"] k by simp
  moreover have "fl_path ?m1 (Item ?b 0) (map (Item ?b) [0..<unat g])"
    by (rule fl_path_linked [OF b1 k])
  moreover have "alloc_item_refill p e m = Inr (p\<lparr>first_free := Item ?b 0\<rparr>, e, ?m1)"
    if "first_free p = Null" "g = max 8 (n_items p)"
    using alloc_item_refill_granted [OF that(1) assms(1), of e] that(2) by simp
  ultimately show ?thesis using gs by blast
qed

theorem get_slab_links_items_witness:
  "get_slab 8 NoError mem0 =
     Inr (Item 0 0, NoError, \<lparr>blocks = [Some (linked 0 8)], plan = [], requests = [8]\<rparr>)
   \<and> load (Item 0 0) \<lparr>blocks = [Some (linked 0 8)], plan = [], requests = [8]\<rparr> = Inr (Item 0 1)
   \<and> load (Item 0 6) \<lparr>blocks = [Some (linked 0 8)], plan = [], requests = [8]\<rparr> = Inr (Item 0 7)
   \<and> load (Item 0 7) \<lparr>blocks = [Some (linked 0 8)], plan = [], requests = [8]\<rparr> = Inr Null
   \<and> alloc_item_refill pool_null NoError mem0 =
     Inr (pool_null\<lparr>first_free := Item 0 0\<rparr>, NoError,
          \<lparr>blocks = [Some (linked 0 8)], plan = [], requests = [8]\<rparr>)"
proof -
  have g: "grants mem0" by (simp add: grants_def mem0_def)
  have p: "(0::size_t) < 8" by simp
  from get_slab_links_items [OF g p, of NoError pool_null] show ?thesis
    by (simp add: pool_eval linked_8)
qed

subsection \<open>The size of the slab requested on growth\<close>

lemma alloc_item_refill_requests:
  assumes "first_free p = Null"
  shows "\<exists>p1 e1 m1. alloc_item_refill p e m = Inr (p1, e1, m1) \<and>
           requests m1 = requests m @ [max 8 (n_items p)]"
proof (cases "grants m")
  case True
  then show ?thesis by (simp add: alloc_item_refill_granted [OF assms])
next
  case False
  then show ?thesis by (simp add: alloc_item_refill_refused [OF assms])
qed

lemma upt_4: "[0..<4] = [0, 1, 2, 3]"
  by (simp add: upt_rec)

text \<open>
  C4. On a pool whose free list is empty, \<open>alloc_item\<close> requests from the allocator a
  slab of exactly \<open>max 8 n_items\<close> items, whatever the allocator answers; when
  \<open>alloc_item\<close> returns, the new block has that many items and the item returned is
  its first. On the pool of \<open>init_empty\<close> the request is for 8 items. After
  \<open>init_with_cap(4)\<close> has succeeded and four items have been acquired, the free list
  is empty and \<open>n_items\<close> is 4, and the fifth acquisition requests 8 items.
\<close>

theorem growth_request_size:
  "(first_free p = Null \<longrightarrow>
      (\<exists>p1 e1 m1. alloc_item_refill p e m = Inr (p1, e1, m1) \<and>
                   requests m1 = requests m @ [max 8 (n_items p)]) \<and>
      (\<forall>it p2 e2 m2. alloc_item p e m = Inr (it, p2, e2, m2) \<longrightarrow>
         requests m2 = requests m @ [max 8 (n_items p)] \<and>
         it = Item (length (blocks m)) 0 \<and>
         block_of m2 (length (blocks m)) =
           Some (linked (length (blocks m)) (unat (max 8 (n_items p))))))
   \<and> (init_empty m0 = (pe, me) \<longrightarrow>
        (\<exists>p1 e1 m1. alloc_item_refill pe e me = Inr (p1, e1, m1) \<and>
                     requests m1 = requests me @ [8]))
   \<and> (init_with_cap 4 e0 m0 = Inr (pc, ec, mc) \<longrightarrow> first_free pc \<noteq> Null \<longrightarrow>
        run [Acquire, Acquire, Acquire, Acquire] pc ec mc [] = Inr (p4, e4, m4, l4) \<longrightarrow>
        first_free p4 = Null \<and> n_items p4 = 4 \<and>
        (\<exists>p5 e5 m5. alloc_item_refill p4 e4 m4 = Inr (p5, e5, m5) \<and>
                     requests m5 = requests m4 @ [8]))"
proof (intro conjI impI allI)
  assume "first_free p = Null"
  then show "\<exists>p1 e1 m1. alloc_item_refill p e m = Inr (p1, e1, m1) \<and>
                   requests m1 = requests m @ [max 8 (n_items p)]"
    by (rule alloc_item_refill_requests)
next
  fix it p2 e2 m2
  assume n: "first_free p = Null" and a: "alloc_item p e m = Inr (it, p2, e2, m2)"
  from a n have g: "grants m" by (rule_tac ccontr) (simp add: alloc_item_exhausted)
  from a show "requests m2 = requests m @ [max 8 (n_items p)]"
    and "it = Item (length (blocks m)) 0"
    and "block_of m2 (length (blocks m)) =
           Some (linked (length (blocks m)) (unat (max 8 (n_items p))))"
    by (auto simp: alloc_item_grow [OF n g] block_of_def)
next
  assume "init_empty m0 = (pe, me)"
  then have "first_free pe = Null" "n_items pe = 0"
    by (auto simp: init_empty_def pool_null_def)
  with alloc_item_refill_requests [of pe e me]
  show "\<exists>p1 e1 m1. alloc_item_refill pe e me = Inr (p1, e1, m1) \<and>
                     requests m1 = requests me @ [8]" by simp
next
  assume c: "init_with_cap 4 e0 m0 = Inr (pc, ec, mc)" and nn: "first_free pc \<noteq> Null"
    and r: "run [Acquire, Acquire, Acquire, Acquire] pc ec mc [] = Inr (p4, e4, m4, l4)"
  have g2: "grants (m0\<lparr>plan := tl (plan m0)\<rparr>)"
    using c by (rule_tac ccontr) (simp add: init_with_cap_no_index)
  have g1: "grants m0"
    using c nn by (rule_tac ccontr) (auto simp: init_with_cap_refused [OF _ g2])
  let ?b = "length (blocks m0)"
  have mc: "mc = m0\<lparr>plan := tl (tl (plan m0)), requests := requests m0 @ [4, 1],
            blocks := blocks m0 @ [Some (linked ?b 4), Some [Some (Item ?b 0)]]\<rparr>"
    and pc: "pc = \<lparr>slabs = Item (Suc ?b) 0, n_slabs = 1, cap_slabs = 1, n_items = 0,
           first_free = Item ?b 0\<rparr>"
    using c init_with_cap_granted [OF g1 _ g2, of 4 e0] by simp_all
  have "block_of mc ?b = Some (linked ?b 4)" by (simp add: mc block_of_def nth_append)
  from fl_path_linked [OF this, of 0]
  have "fl_path mc (first_free pc) (map (Item ?b) [0..<4])" by (simp add: pc)
  then have "pool_fl pc mc ([Item ?b 0, Item ?b 1, Item ?b 2, Item ?b 3] @ []) []"
    by (simp add: pool_fl_def upt_4)
  from run_acquire_fl [OF this, of ec] r
  have "pool_fl p4 m4 [] l4" by auto
  then show n4: "first_free p4 = Null" by (simp add: pool_fl_def)
  from run_n_items [OF r] show i4: "n_items p4 = 4" by (simp add: pc)
  from alloc_item_refill_requests [OF n4, of e4 m4] i4
  show "\<exists>p5 e5 m5. alloc_item_refill p4 e4 m4 = Inr (p5, e5, m5) \<and>
                     requests m5 = requests m4 @ [8]" by simp
qed

theorem growth_request_size_witness:
  "alloc_item \<lparr>slabs = Null, n_slabs = 0, cap_slabs = 0, n_items = 20, first_free = Null\<rparr>
      NoError mem0 =
     Inr (Item 0 0,
          \<lparr>slabs = Null, n_slabs = 0, cap_slabs = 0, n_items = 21, first_free = Item 0 1\<rparr>,
          NoError, \<lparr>blocks = [Some (linked 0 20)], plan = [], requests = [20]\<rparr>)
   \<and> requests \<lparr>blocks = [Some (linked 0 20)], plan = [], requests = [20]\<rparr> =
      requests mem0 @ [max 8 20]
   \<and> init_empty mem0 = (pool_null, mem0)
   \<and> alloc_item_refill pool_null NoError mem0 =
      Inr (pool_null\<lparr>first_free := Item 0 0\<rparr>, NoError,
           \<lparr>blocks = [Some (linked 0 8)], plan = [], requests = [8]\<rparr>)
   \<and> init_with_cap 4 NoError mem0 =
      Inr (\<lparr>slabs = Item 1 0, n_slabs = 1, cap_slabs = 1, n_items = 0, first_free = Item 0 0\<rparr>,
           NoError,
           \<lparr>blocks = [Some (linked 0 4), Some [Some (Item 0 0)]], plan = [], requests = [4, 1]\<rparr>)
   \<and> run [Acquire, Acquire, Acquire, Acquire]
        \<lparr>slabs = Item 1 0, n_slabs = 1, cap_slabs = 1, n_items = 0, first_free = Item 0 0\<rparr>
        NoError
        \<lparr>blocks = [Some (linked 0 4), Some [Some (Item 0 0)]], plan = [], requests = [4, 1]\<rparr> [] =
      Inr (\<lparr>slabs = Item 1 0, n_slabs = 1, cap_slabs = 1, n_items = 4, first_free = Null\<rparr>,
           NoError,
           \<lparr>blocks = [Some (linked 0 4), Some [Some (Item 0 0)]], plan = [], requests = [4, 1]\<rparr>,
           [Item 0 3, Item 0 2, Item 0 1, Item 0 0])
   \<and> alloc_item_refill
        \<lparr>slabs = Item 1 0, n_slabs = 1, cap_slabs = 1, n_items = 4, first_free = Null\<rparr> NoError
        \<lparr>blocks = [Some (linked 0 4), Some [Some (Item 0 0)]], plan = [], requests = [4, 1]\<rparr> =
      Inr (\<lparr>slabs = Item 1 0, n_slabs = 1, cap_slabs = 1, n_items = 4, first_free = Item 2 0\<rparr>,
           NoError,
           \<lparr>blocks = [Some (linked 0 4), Some [Some (Item 0 0)], Some (linked 2 8)], plan = [],
             requests = [4, 1, 8]\<rparr>)"
proof -
  let ?pa = "\<lparr>slabs = Null, n_slabs = 0, cap_slabs = 0, n_items = 20, first_free = Null\<rparr>"
  let ?pc = "\<lparr>slabs = Item 1 0, n_slabs = 1, cap_slabs = 1, n_items = 0, first_free = Item 0 0\<rparr>"
  let ?mc = "\<lparr>blocks = [Some (linked 0 4), Some [Some (Item 0 0)]], plan = [], requests = [4, 1]\<rparr>"
  let ?pd = "\<lparr>slabs = Item 1 0, n_slabs = 1, cap_slabs = 1, n_items = 4, first_free = Null\<rparr>"
  have g: "grants mem0" by (simp add: grants_def mem0_def)
  have n: "first_free ?pa = Null" by simp
  have a: "alloc_item ?pa NoError mem0 =
     Inr (Item 0 0,
          \<lparr>slabs = Null, n_slabs = 0, cap_slabs = 0, n_items = 21, first_free = Item 0 1\<rparr>,
          NoError, \<lparr>blocks = [Some (linked 0 20)], plan = [], requests = [20]\<rparr>)"
    using alloc_item_grow [OF n g, of NoError] by (simp add: mem0_def)
  have i: "init_empty mem0 = (pool_null, mem0)" by (simp add: init_empty_def)
  have c: "init_with_cap 4 NoError mem0 = Inr (?pc, NoError, ?mc)"
    by (simp add: pool_eval)
  have nn: "first_free ?pc \<noteq> Null" by simp
  have r: "run [Acquire, Acquire, Acquire, Acquire] ?pc NoError ?mc [] =
      Inr (?pd, NoError, ?mc, [Item 0 3, Item 0 2, Item 0 1, Item 0 0])"
    by (simp add: pool_eval linked_4)
  have rf: "alloc_item_refill pool_null NoError mem0 =
      Inr (pool_null\<lparr>first_free := Item 0 0\<rparr>, NoError,
           \<lparr>blocks = [Some (linked 0 8)], plan = [], requests = [8]\<rparr>)"
    by (simp add: pool_eval)
  have rg: "alloc_item_refill ?pd NoError ?mc =
      Inr (\<lparr>slabs = Item 1 0, n_slabs = 1, cap_slabs = 1, n_items = 4, first_free = Item 2 0\<rparr>,
           NoError,
           \<lparr>blocks = [Some (linked 0 4), Some [Some (Item 0 0)], Some (linked 2 8)], plan = [],
             requests = [4, 1, 8]\<rparr>)"
    by (simp add: pool_eval linked_8)
  note t = growth_request_size [where p = ?pa and e = NoError and m = mem0 and ?m0.0 = mem0
      and pe = pool_null and me = mem0 and ?e0.0 = NoError and pc = ?pc and ec = NoError
      and mc = ?mc and ?p4.0 = ?pd and ?e4.0 = NoError and ?m4.0 = ?mc
      and ?l4.0 = "[Item 0 3, Item 0 2, Item 0 1, Item 0 0]"]
  from t n a have "requests \<lparr>blocks = [Some (linked 0 20)], plan = [], requests = [20]\<rparr> =
      requests mem0 @ [max 8 (n_items ?pa)]"
    by blast
  then have q: "requests \<lparr>blocks = [Some (linked 0 20)], plan = [], requests = [20]\<rparr> =
      requests mem0 @ [max 8 20]"
    by simp
  from a q i rf c r rg show ?thesis by (intro conjI)
qed


end
